theory Spec2Isabelle
  imports Main "HOL-Library.Product_Lexorder"
begin

section \<open>Errors\<close>

text \<open>
  The exceptions that the modelled code can raise: \<^verbatim>\<open>KeyError\<close> from a dictionary
  lookup, and \<^verbatim>\<open>OverflowError\<close> from a method of \<^verbatim>\<open>re.Pattern\<close> that is given an
  index outside the range of a C \<^verbatim>\<open>ssize_t\<close>. \<open>InvalidNucleotide\<close> is the name the
  specification gives to the failure of the reverse complement; no code of gpred.py
  raises it.
\<close>

datatype error = KeyError char | OverflowError | InvalidNucleotide

section \<open>The regular expressions of gpred.py\<close>

text \<open>
  gpred.py compiles three patterns with Python's \<^verbatim>\<open>re\<close> module. They use literals,
  character classes, the dot, the greedy optional \<^verbatim>\<open>?\<close>, concatenation and
  alternation only (\<^verbatim>\<open>.{1}\<close> is one dot). \<open>ends r s\<close> lists the lengths of the
  matches of \<open>r\<close> at the head of \<open>s\<close> in the order in which the backtracking
  matcher of \<^verbatim>\<open>re\<close> tries them: the left alternative first, the optional part
  present first. The match that \<^verbatim>\<open>re\<close> reports is the first of the list.
\<close>

datatype regex =
    Lit char
  | Cls "char list"
  | Dot
  | Opt regex
  | Cat regex regex
  | Alt regex regex

fun ends :: "regex \<Rightarrow> string \<Rightarrow> nat list" where
  "ends (Lit c) s = (case s of [] \<Rightarrow> [] | x # _ \<Rightarrow> if x = c then [1] else [])"
| "ends (Cls cs) s = (case s of [] \<Rightarrow> [] | x # _ \<Rightarrow> if x \<in> set cs then [1] else [])"
| "ends Dot s = (case s of [] \<Rightarrow> [] | x # _ \<Rightarrow> if x \<noteq> CHR 0x0A then [1] else [])"
| "ends (Opt r) s = ends r s @ [0]"
| "ends (Cat r1 r2) s = concat (map (\<lambda>n. map (\<lambda>k. n + k) (ends r2 (drop n s))) (ends r1 s))"
| "ends (Alt r1 r2) s = ends r1 s @ ends r2 s"

text \<open>\<^verbatim>\<open>start_regex = re.compile('AT[TG]|[ATCG]TG')\<close>\<close>

definition start_regex :: regex where
  "start_regex =
     Alt (Cat (Lit CHR ''A'') (Cat (Lit CHR ''T'') (Cls ''TG'')))
         (Cat (Cls ''ATCG'') (Cat (Lit CHR ''T'') (Lit CHR ''G'')))"

text \<open>\<^verbatim>\<open>stop_regex = re.compile('TA[GA]|TGA')\<close>\<close>

definition stop_regex :: regex where
  "stop_regex =
     Alt (Cat (Lit CHR ''T'') (Cat (Lit CHR ''A'') (Cls ''GA'')))
         (Cat (Lit CHR ''T'') (Cat (Lit CHR ''G'') (Lit CHR ''A'')))"

text \<open>\<^verbatim>\<open>shine_regex = re.compile('A?G?GAGG|GGAG|GG.{1}GG')\<close>\<close>

definition shine_regex :: regex where
  "shine_regex =
     Alt (Cat (Opt (Lit CHR ''A'')) (Cat (Opt (Lit CHR ''G''))
            (Cat (Lit CHR ''G'') (Cat (Lit CHR ''A'') (Cat (Lit CHR ''G'') (Lit CHR ''G''))))))
      (Alt (Cat (Lit CHR ''G'') (Cat (Lit CHR ''G'') (Cat (Lit CHR ''A'') (Lit CHR ''G''))))
           (Cat (Lit CHR ''G'') (Cat (Lit CHR ''G'') (Cat Dot
              (Cat (Lit CHR ''G'') (Lit CHR ''G''))))))"

text \<open>
  \<^verbatim>\<open>Pattern.search(string, pos, endpos)\<close> and \<^verbatim>\<open>Pattern.finditer(string, pos)\<close>
  first convert \<open>pos\<close> and \<open>endpos\<close> to a C \<^verbatim>\<open>ssize_t\<close>, which raises
  \<^verbatim>\<open>OverflowError\<close> for an integer below \<open>-2^63\<close> or above \<open>2^63 - 1\<close> (CPython on a
  64-bit platform). They then clamp the two indices into \<open>[0, len(string)]\<close> (a negative
  index is not counted from the end), treat the string as ending at \<open>endpos\<close>, and find
  nothing when \<open>endpos < pos\<close>. A match is the pair of its start and end.
\<close>

definition ssize_t :: "int \<Rightarrow> bool" where
  "ssize_t i = (- (2 ^ 63) \<le> i \<and> i < 2 ^ 63)"

definition clamp :: "nat \<Rightarrow> int \<Rightarrow> nat" where
  "clamp n i = (if i < 0 then 0 else if int n < i then n else nat i)"

text \<open>\<open>scan r s i\<close>: the leftmost match in the rest \<open>s\<close> of the string, which starts at index \<open>i\<close>.\<close>

fun scan :: "regex \<Rightarrow> string \<Rightarrow> nat \<Rightarrow> (nat \<times> nat) option" where
  "scan r [] i = (case ends r [] of [] \<Rightarrow> None | n # _ \<Rightarrow> Some (i, i + n))"
| "scan r (c # cs) i =
     (case ends r (c # cs) of [] \<Rightarrow> scan r cs (Suc i) | n # _ \<Rightarrow> Some (i, i + n))"

definition search ::
  "regex \<Rightarrow> string \<Rightarrow> int \<Rightarrow> int \<Rightarrow> error + (nat \<times> nat) option" where
  "search r s pos endpos =
     (if ssize_t pos \<and> ssize_t endpos then
        (let p = clamp (length s) pos; e = clamp (length s) endpos
         in Inr (if e < p then None else scan r (drop p (take e s)) p))
      else Inl OverflowError)"

text \<open>
  \<open>iter r s i k\<close>: the successive non-overlapping matches in the rest \<open>s\<close> of the string,
  which starts at index \<open>i\<close>; the first \<open>k\<close> symbols belong to the previous match and
  start no match. After an empty match the scan goes on at the next index; none of the
  three patterns of the program matches the empty string.
\<close>

fun iter :: "regex \<Rightarrow> string \<Rightarrow> nat \<Rightarrow> nat \<Rightarrow> (nat \<times> nat) list" where
  "iter r [] i k =
     (if k = 0 then (case ends r [] of [] \<Rightarrow> [] | n # _ \<Rightarrow> [(i, i + n)]) else [])"
| "iter r (c # cs) i k =
     (if 0 < k then iter r cs (Suc i) (k - 1)
      else (case ends r (c # cs) of
              [] \<Rightarrow> iter r cs (Suc i) 0
            | n # _ \<Rightarrow> (i, i + n) # iter r cs (Suc i) (n - 1)))"

definition finditer :: "regex \<Rightarrow> string \<Rightarrow> int \<Rightarrow> error + (nat \<times> nat) list" where
  "finditer r s pos =
     (if ssize_t pos then (let p = clamp (length s) pos in Inr (iter r (drop p s) p 0))
      else Inl OverflowError)"

section \<open>The search primitives\<close>

text \<open>
  Each primitive returns \<open>Inl\<close> of the exception when the method of the pattern raises
  it, and \<open>Inr\<close> of its value otherwise.
\<close>

definition find_start :: "regex \<Rightarrow> string \<Rightarrow> int \<Rightarrow> int \<Rightarrow> error + int option" where
  "find_start start_re sequence start stop =
     (case search start_re sequence start stop of
        Inl e \<Rightarrow> Inl e
      | Inr (Some m) \<Rightarrow> Inr (Some (int (fst m)))
      | Inr None \<Rightarrow> Inr None)"

definition find_stop :: "regex \<Rightarrow> string \<Rightarrow> int \<Rightarrow> error + int option" where
  "find_stop stop_re sequence start =
     (case finditer stop_re sequence start of
        Inl e \<Rightarrow> Inl e
      | Inr ms \<Rightarrow>
          (case List.find (\<lambda>m. (int (fst m) - start) mod 3 = 0) ms of
             Some m \<Rightarrow> Inr (Some (int (fst m)))
           | None \<Rightarrow> Inr None))"

definition has_shine_dalgarno :: "regex \<Rightarrow> string \<Rightarrow> int \<Rightarrow> int \<Rightarrow> error + bool" where
  "has_shine_dalgarno shine_re sequence start max_shine_dalgarno_distance =
     (let search_start = start - max_shine_dalgarno_distance;
          search_end = start - 6
      in if search_start < 0 then Inr False
         else (case search shine_re sequence search_start search_end of
                 Inl e \<Rightarrow> Inl e
               | Inr (Some m) \<Rightarrow> Inr True
               | Inr None \<Rightarrow> Inr False))"

section \<open>The scan of one strand\<close>

text \<open>
  The parameters of \<^verbatim>\<open>predict_genes\<close> that stay the same during the loop. The three
  numbers are Python integers, read by argparse with \<^verbatim>\<open>type=int\<close>: they can be
  negative.
\<close>

record params =
  sequence :: string
  start_re :: regex
  stop_re :: regex
  shine_re :: regex
  min_gene_len :: int
  max_shine_dalgarno_distance :: int
  min_gap :: int

type_synonym gene = "int \<times> int"

text \<open>
  One pass through the body of the \<^verbatim>\<open>while\<close> loop, from the cursor
  \<open>current_position\<close> and the list \<open>predicted_genes\<close>. \<open>Inr None\<close>: the loop is left, by
  its condition or by \<^verbatim>\<open>break\<close>. \<open>Inl e\<close>: the pass raises \<open>e\<close>. The test
  \<^verbatim>\<open>if stop_pos and ...\<close> is false for \<^verbatim>\<open>None\<close> and for 0, and
  \<^verbatim>\<open>has_shine_dalgarno\<close> is called only when it is true.
\<close>

definition predict_body ::
  "params \<Rightarrow> int \<times> gene list \<Rightarrow> error + (int \<times> gene list) option" where
  "predict_body P st =
     (let current_position = fst st; predicted_genes = snd st;
          sequence_len = int (length (sequence P))
      in if sequence_len - current_position \<ge> min_gap P then
           (case find_start (start_re P) (sequence P) current_position sequence_len of
              Inl e \<Rightarrow> Inl e
            | Inr None \<Rightarrow> Inr None
            | Inr (Some start_pos) \<Rightarrow>
                (case find_stop (stop_re P) (sequence P) start_pos of
                   Inl e \<Rightarrow> Inl e
                 | Inr None \<Rightarrow> Inr (Some (current_position + 1, predicted_genes))
                 | Inr (Some stop_pos) \<Rightarrow>
                     if stop_pos \<noteq> 0 \<and> stop_pos - start_pos \<ge> min_gene_len P then
                       (case has_shine_dalgarno (shine_re P) (sequence P) start_pos
                               (max_shine_dalgarno_distance P) of
                          Inl e \<Rightarrow> Inl e
                        | Inr True \<Rightarrow>
                            Inr (Some (stop_pos + 3 + min_gap P,
                                       predicted_genes @ [(start_pos + 1, stop_pos + 3)]))
                        | Inr False \<Rightarrow> Inr (Some (current_position + 1, predicted_genes)))
                     else Inr (Some (current_position + 1, predicted_genes))))
         else Inr None)"

text \<open>
  The loop: \<open>None\<close> when it runs forever, \<open>Some (Inl e)\<close> when a pass raises \<open>e\<close>,
  \<open>Some (Inr genes)\<close> when the function returns \<open>genes\<close>.
\<close>

partial_function (option) predict_loop ::
  "params \<Rightarrow> int \<times> gene list \<Rightarrow> (error + gene list) option" where
  "predict_loop P st =
     (case predict_body P st of
        Inl e \<Rightarrow> Some (Inl e)
      | Inr None \<Rightarrow> Some (Inr (snd st))
      | Inr (Some st') \<Rightarrow> predict_loop P st')"

declare predict_loop.simps [code]

definition predict_genes ::
  "string \<Rightarrow> regex \<Rightarrow> regex \<Rightarrow> regex \<Rightarrow> int \<Rightarrow> int \<Rightarrow> int \<Rightarrow> (error + gene list) option" where
  "predict_genes sq start_rx stop_rx shine_rx mgl msd gap =
     predict_loop \<lparr>sequence = sq, start_re = start_rx, stop_re = stop_rx, shine_re = shine_rx,
                    min_gene_len = mgl, max_shine_dalgarno_distance = msd, min_gap = gap\<rparr>
       (0, [])"

text \<open>
  The state after \<open>n\<close> passes through the body; \<open>None\<close> when the loop is left before, by
  its end or by an exception.
\<close>

fun predict_iter :: "params \<Rightarrow> nat \<Rightarrow> int \<times> gene list \<Rightarrow> (int \<times> gene list) option" where
  "predict_iter P 0 st = Some st"
| "predict_iter P (Suc n) st =
     (case predict_body P st of Inr (Some st') \<Rightarrow> predict_iter P n st' | _ \<Rightarrow> None)"

section \<open>The two strands\<close>

text \<open>
  \<^verbatim>\<open>complement[base]\<close> raises \<^verbatim>\<open>KeyError\<close> for a symbol that is not a key of the
  dictionary.
\<close>

definition complement :: "char \<rightharpoonup> char" where
  "complement = [CHR ''A'' \<mapsto> CHR ''T'', CHR ''C'' \<mapsto> CHR ''G'',
                 CHR ''G'' \<mapsto> CHR ''C'', CHR ''T'' \<mapsto> CHR ''A'']"

text \<open>The list comprehension \<^verbatim>\<open>[complement[base] for base in ...]\<close>, left to right.\<close>

fun complement_all :: "string \<Rightarrow> error + string" where
  "complement_all [] = Inr []"
| "complement_all (base # rest) =
     (case complement base of
        None \<Rightarrow> Inl (KeyError base)
      | Some c \<Rightarrow> (case complement_all rest of Inl e \<Rightarrow> Inl e | Inr cs \<Rightarrow> Inr (c # cs)))"

definition reverse_complement :: "string \<Rightarrow> error + string" where
  "reverse_complement sq = complement_all (rev sq)"

text \<open>
  The part of \<^verbatim>\<open>main\<close> between reading the sequence and writing the files; the result
  is \<^verbatim>\<open>all_genes\<close>. \<^verbatim>\<open>genes_cor.sort()\<close> orders the two-element lists
  lexicographically, which is the order of pairs here.
\<close>

definition main_genes :: "string \<Rightarrow> int \<Rightarrow> int \<Rightarrow> int \<Rightarrow> (error + gene list) option" where
  "main_genes sq mgl dist_max_shine gap =
     (case predict_genes sq start_regex stop_regex shine_regex mgl dist_max_shine gap of
        None \<Rightarrow> None
      | Some (Inl e) \<Rightarrow> Some (Inl e)
      | Some (Inr genes) \<Rightarrow>
          (case reverse_complement sq of
             Inl e \<Rightarrow> Some (Inl e)
           | Inr sequence_rc \<Rightarrow>
               (case predict_genes sequence_rc start_regex stop_regex shine_regex
                       mgl dist_max_shine gap of
                  None \<Rightarrow> None
                | Some (Inl e) \<Rightarrow> Some (Inl e)
                | Some (Inr genes_rc) \<Rightarrow>
                    (let genes_cor =
                           sort (map (\<lambda>(start, end).
                                   (int (length sq) - end + 1, int (length sq) - start + 1))
                                 genes_rc)
                     in Some (Inr (genes @ genes_cor))))))"

section \<open>Notions used by the properties\<close>

text \<open>The keys of the dictionary \<^verbatim>\<open>complement\<close>: the alphabet of a valid sequence.\<close>

definition nucleotides :: "char set" where
  "nucleotides = {CHR ''A'', CHR ''C'', CHR ''G'', CHR ''T''}"

text \<open>
  An occurrence of a stop codon, after the comment of \<^verbatim>\<open>main\<close>:
  \<^verbatim>\<open>stop_codons = ['TAA', 'TAG', 'TGA']\<close>.
\<close>

definition stop_codons :: "string set" where
  "stop_codons = {''TAA'', ''TAG'', ''TGA''}"

definition stop_codon_at :: "string \<Rightarrow> nat \<Rightarrow> bool" where
  "stop_codon_at s p = (take 3 (drop p s) \<in> stop_codons)"

text \<open>The least and the greatest length of a match, for bounds on \<open>ends\<close>.\<close>

fun minlen :: "regex \<Rightarrow> nat" where
  "minlen (Lit c) = 1"
| "minlen (Cls cs) = 1"
| "minlen Dot = 1"
| "minlen (Opt r) = 0"
| "minlen (Cat r1 r2) = minlen r1 + minlen r2"
| "minlen (Alt r1 r2) = min (minlen r1) (minlen r2)"

fun maxlen :: "regex \<Rightarrow> nat" where
  "maxlen (Lit c) = 1"
| "maxlen (Cls cs) = 1"
| "maxlen Dot = 1"
| "maxlen (Opt r) = maxlen r"
| "maxlen (Cat r1 r2) = maxlen r1 + maxlen r2"
| "maxlen (Alt r1 r2) = max (maxlen r1) (maxlen r2)"

text \<open>
  A stop codon at position \<open>q\<close>, at or after \<open>from\<close>, in the reading frame of \<open>from\<close>.
\<close>

definition in_frame_stop :: "string \<Rightarrow> int \<Rightarrow> int \<Rightarrow> bool" where
  "in_frame_stop s from q =
     (from \<le> q \<and> 0 \<le> q \<and> stop_codon_at s (nat q) \<and> (q - from) mod 3 = 0)"

text \<open>The parameters with which \<^verbatim>\<open>main\<close> calls \<^verbatim>\<open>predict_genes\<close>.\<close>

abbreviation gpred :: "string \<Rightarrow> int \<Rightarrow> int \<Rightarrow> int \<Rightarrow> params" where
  "gpred sq mgl msd gap \<equiv>
     \<lparr>sequence = sq, start_re = start_regex, stop_re = stop_regex, shine_re = shine_regex,
      min_gene_len = mgl, max_shine_dalgarno_distance = msd, min_gap = gap\<rparr>"

section \<open>The reverse complement\<close>

lemma complement_dom: "complement c = None \<longleftrightarrow> c \<notin> nucleotides"
  by (simp add: complement_def nucleotides_def)

lemma complement_twice:
  "c \<in> nucleotides \<Longrightarrow> \<exists>d. complement c = Some d \<and> d \<in> nucleotides \<and> complement d = Some c"
  by (auto simp: complement_def nucleotides_def)

lemma complement_all_valid:
  "set s \<subseteq> nucleotides \<Longrightarrow> complement_all s = Inr (map (\<lambda>c. the (complement c)) s)"
proof (induction s)
  case Nil
  then show ?case by simp
next
  case (Cons a s)
  then obtain d where "complement a = Some d" using complement_twice by force
  with Cons show ?case by simp
qed

lemma complement_all_invalid:
  "\<not> set s \<subseteq> nucleotides \<Longrightarrow>
   complement_all s = Inl (KeyError (hd (filter (\<lambda>c. c \<notin> nucleotides) s)))"
proof (induction s)
  case Nil
  then show ?case by simp
next
  case (Cons a s)
  show ?case
  proof (cases "a \<in> nucleotides")
    case True
    then obtain d where "complement a = Some d" using complement_twice by blast
    moreover from True Cons.prems have "\<not> set s \<subseteq> nucleotides" by simp
    ultimately show ?thesis using Cons.IH True by simp
  next
    case False
    then have "complement a = None" by (simp add: complement_dom)
    with False show ?thesis by simp
  qed
qed

text \<open>
  C9. The reverse complement is an involution on valid sequences: for a sequence over
  A, C, G, T the function returns a sequence, and applied to that sequence it returns
  the first one again.
\<close>

theorem reverse_complement_involution:
  assumes "set s \<subseteq> nucleotides"
  shows "\<exists>t. reverse_complement s = Inr t \<and> reverse_complement t = Inr s"
proof -
  let ?f = "\<lambda>c. the (complement c)"
  let ?t = "map ?f (rev s)"
  have 1: "reverse_complement s = Inr ?t"
    using assms by (simp add: reverse_complement_def complement_all_valid)
  have f_in: "?f c \<in> nucleotides" and f_f: "?f (?f c) = c" if "c \<in> nucleotides" for c
    using complement_twice [OF that] by auto
  have "set (rev ?t) \<subseteq> nucleotides" using assms f_in by auto
  then have "reverse_complement ?t = Inr (map ?f (rev ?t))"
    by (simp only: reverse_complement_def complement_all_valid)
  also have "map ?f (rev ?t) = map (\<lambda>c. ?f (?f c)) s" by (simp add: rev_map)
  also have "\<dots> = s" using assms f_f by (simp add: map_idI subset_iff)
  finally show ?thesis using 1 by blast
qed

theorem reverse_complement_involution_witness:
  "set ''GATTACA'' \<subseteq> nucleotides \<and>
   (\<exists>t. reverse_complement ''GATTACA'' = Inr t \<and> reverse_complement t = Inr ''GATTACA'')"
  using reverse_complement_involution [of "''GATTACA''"] by (simp add: nucleotides_def)

text \<open>
  C2, as the code has it. On a sequence with a symbol outside A, C, G, T the reverse
  complement fails, and nothing is substituted or dropped; the failure is the
  \<^verbatim>\<open>KeyError\<close> of the dictionary lookup, for the last such symbol of the sequence
  (the first one met in the reversed sequence).
\<close>

theorem reverse_complement_invalid:
  assumes "\<not> set s \<subseteq> nucleotides"
  shows "reverse_complement s = Inl (KeyError (last (filter (\<lambda>c. c \<notin> nucleotides) s)))"
proof -
  have "filter (\<lambda>c. c \<notin> nucleotides) s \<noteq> []" using assms by (auto simp: filter_empty_conv)
  then have "hd (filter (\<lambda>c. c \<notin> nucleotides) (rev s)) = last (filter (\<lambda>c. c \<notin> nucleotides) s)"
    by (simp add: rev_filter [symmetric] hd_rev)
  moreover have "\<not> set (rev s) \<subseteq> nucleotides" using assms by simp
  ultimately show ?thesis
    unfolding reverse_complement_def using complement_all_invalid [of "rev s"] by simp
qed

theorem reverse_complement_invalid_witness:
  "\<not> set ''ATGX'' \<subseteq> nucleotides \<and> reverse_complement ''ATGX'' = Inl (KeyError CHR ''X'')"
  using reverse_complement_invalid [of "''ATGX''"] by (simp add: nucleotides_def)

text \<open>
  C2, as the specification states it, fails: on \<^verbatim>\<open>"ATGX"\<close> the error is the lookup
  failure, not \<open>InvalidNucleotide\<close>.
\<close>

theorem reverse_complement_ATGX_not_named:
  "reverse_complement ''ATGX'' = Inl (KeyError CHR ''X'') \<and>
   reverse_complement ''ATGX'' \<noteq> Inl InvalidNucleotide"
  by (simp add: reverse_complement_def complement_def)

section \<open>Matches of the three patterns\<close>

lemma ends_bounds: "n \<in> set (ends r s) \<Longrightarrow> minlen r \<le> n \<and> n \<le> maxlen r \<and> n \<le> length s"
proof (induction r arbitrary: s n)
  case (Lit c)
  then show ?case by (cases s) (auto split: if_splits)
next
  case (Cls cs)
  then show ?case by (cases s) (auto split: if_splits)
next
  case Dot
  then show ?case by (cases s) (auto split: if_splits)
next
  case (Opt r)
  from Opt.prems have "n \<in> set (ends r s) \<or> n = 0" by auto
  then show ?case using Opt.IH [of n s] by auto
next
  case (Cat r1 r2)
  then obtain a b where ab: "a \<in> set (ends r1 s)" "b \<in> set (ends r2 (drop a s))" "n = a + b"
    by auto
  from Cat.IH(1) [OF ab(1)] Cat.IH(2) [OF ab(2)] ab(3) show ?case by auto
next
  case (Alt r1 r2)
  from Alt.prems have "n \<in> set (ends r1 s) \<or> n \<in> set (ends r2 s)" by auto
  then show ?case using Alt.IH(1) [of n s] Alt.IH(2) [of n s] by auto
qed

lemma len_start_regex: "minlen start_regex = 3" "maxlen start_regex = 3"
  by (simp_all add: start_regex_def)

lemma len_shine_regex: "minlen shine_regex = 4"
  by (simp add: shine_regex_def)

lemma ends_start_regex: "n \<in> set (ends start_regex u) \<Longrightarrow> n = 3 \<and> 3 \<le> length u"
  using ends_bounds [of n start_regex u] len_start_regex by simp

lemma ends_shine_regex: "n \<in> set (ends shine_regex u) \<Longrightarrow> 4 \<le> n \<and> n \<le> length u"
  using ends_bounds [of n shine_regex u] len_shine_regex by simp

lemma ends_stop_regex:
  "ends stop_regex u = (if take 3 u \<in> stop_codons then [3] else [])"
proof (cases u)
  case Nil then show ?thesis by (simp add: stop_regex_def stop_codons_def)
next
  case (Cons a u1)
  show ?thesis
  proof (cases u1)
    case Nil with Cons show ?thesis by (simp add: stop_regex_def stop_codons_def)
  next
    case (Cons b u2)
    show ?thesis
    proof (cases u2)
      case Nil with \<open>u = a # u1\<close> \<open>u1 = b # u2\<close> show ?thesis
        by (simp add: stop_regex_def stop_codons_def)
    next
      case (Cons c u3) with \<open>u = a # u1\<close> \<open>u1 = b # u2\<close> show ?thesis
        by (auto simp add: stop_regex_def stop_codons_def)
    qed
  qed
qed

lemma stop_codons_length: "w \<in> stop_codons \<Longrightarrow> length w = 3"
  by (auto simp: stop_codons_def)

lemma stop_codon_length: "stop_codon_at s p \<Longrightarrow> p + 3 \<le> length s"
proof -
  assume "stop_codon_at s p"
  then have "length (take 3 (drop p s)) = 3"
    unfolding stop_codon_at_def by (rule stop_codons_length)
  then show ?thesis by simp
qed

lemma list_3_cases:
  assumes "3 \<le> length xs"
  shows "\<exists>a b c u. xs = a # b # c # u"
proof -
  from assms obtain a x1 where 1: "xs = a # x1" "2 \<le> length x1" by (cases xs) auto
  then obtain b x2 where 2: "x1 = b # x2" "1 \<le> length x2" by (cases x1) auto
  then obtain c u where "x2 = c # u" by (cases x2) auto
  with 1 2 show ?thesis by simp
qed

lemma stop_no_overlap_aux:
  "take 3 (a # b # c # u) \<in> stop_codons \<Longrightarrow>
   take 3 (b # c # u) \<notin> stop_codons \<and> take 3 (c # u) \<notin> stop_codons"
  by (cases u; cases "tl u") (auto simp: stop_codons_def)

lemma stop_no_overlap:
  assumes "stop_codon_at s p"
  shows "\<not> stop_codon_at s (Suc p) \<and> \<not> stop_codon_at s (Suc (Suc p))"
proof -
  from stop_codon_length [OF assms] have "3 \<le> length (drop p s)" by simp
  from list_3_cases [OF this] obtain a b c u where u: "drop p s = a # b # c # u"
    by blast
  then have 1: "drop (Suc p) s = b # c # u" and 2: "drop (Suc (Suc p)) s = c # u"
    by (metis drop_Suc tl_drop list.sel(3))+
  from assms u have "take 3 (a # b # c # u) \<in> stop_codons" by (simp add: stop_codon_at_def)
  from stop_no_overlap_aux [OF this] show ?thesis
    unfolding stop_codon_at_def 1 2 by simp
qed

lemma scan_SomeD:
  "scan r t i = Some (a, b) \<Longrightarrow>
   i \<le> a \<and> (\<exists>n. n \<in> set (ends r (drop (a - i) t)) \<and> b = a + n)"
proof (induction t arbitrary: i)
  case Nil
  then show ?case by (auto split: list.splits)
next
  case (Cons c cs)
  show ?case
  proof (cases "ends r (c # cs)")
    case Nil
    with Cons.prems have "scan r cs (Suc i) = Some (a, b)" by simp
    from Cons.IH [OF this] obtain n where
      "Suc i \<le> a" "n \<in> set (ends r (drop (a - Suc i) cs))" "b = a + n" by blast
    moreover from \<open>Suc i \<le> a\<close> have "drop (a - i) (c # cs) = drop (a - Suc i) cs"
      by (simp add: Suc_diff_le drop_Cons')
    ultimately show ?thesis by auto
  next
    case (Cons n ns)
    with Cons.prems have "a = i" "b = i + n" by auto
    with Cons show ?thesis by auto
  qed
qed

lemma search_SomeD:
  assumes "search r s pos endpos = Inr (Some (a, b))"
  shows "clamp (length s) pos \<le> a \<and>
         (\<exists>n. n \<in> set (ends r (drop a (take (clamp (length s) endpos) s))) \<and> b = a + n)"
proof -
  let ?p = "clamp (length s) pos" and ?e = "clamp (length s) endpos"
  from assms have "scan r (drop ?p (take ?e s)) ?p = Some (a, b)"
    by (simp add: search_def Let_def split: if_splits)
  from scan_SomeD [OF this] obtain n where
    "?p \<le> a" "n \<in> set (ends r (drop (a - ?p) (drop ?p (take ?e s))))" "b = a + n" by blast
  then show ?thesis by auto
qed

lemma search_raises:
  "search r s pos endpos = Inl e \<longleftrightarrow> e = OverflowError \<and> \<not> (ssize_t pos \<and> ssize_t endpos)"
  by (auto simp: search_def Let_def)

lemma search_returns: "search r s pos endpos = Inr m \<Longrightarrow> ssize_t pos \<and> ssize_t endpos"
  by (auto simp: search_def Let_def split: if_splits)

lemma clamp_le: "clamp n i \<le> n"
  by (auto simp: clamp_def)

lemma search_start_regex:
  assumes "search start_regex s pos endpos = Inr (Some (a, b))"
  shows "clamp (length s) pos \<le> a \<and> a + 3 \<le> clamp (length s) endpos \<and> b = a + 3"
proof -
  from search_SomeD [OF assms] obtain n where
    1: "clamp (length s) pos \<le> a"
    and 2: "n \<in> set (ends start_regex (drop a (take (clamp (length s) endpos) s)))"
    and 3: "b = a + n" by blast
  from ends_start_regex [OF 2] have "n = 3" "a + 3 \<le> clamp (length s) endpos"
    using clamp_le [of "length s" endpos] by auto
  with 1 3 show ?thesis by simp
qed

lemma find_start_SomeD:
  assumes "find_start start_regex s c (int (length s)) = Inr (Some sp)"
  shows "c \<le> sp \<and> 0 \<le> sp \<and> sp + 3 \<le> int (length s)"
proof -
  from assms obtain a b where ab: "search start_regex s c (int (length s)) = Inr (Some (a, b))"
    and sp: "sp = int a"
    by (auto simp: find_start_def split: sum.splits option.splits)
  from search_start_regex [OF ab] have "clamp (length s) c \<le> a" "a + 3 \<le> length s"
    using clamp_le [of "length s" "int (length s)"] by auto
  then show ?thesis using sp by (auto simp: clamp_def split: if_splits)
qed

lemma find_start_raises:
  "find_start r s start stop = Inl e \<longleftrightarrow> e = OverflowError \<and> \<not> (ssize_t start \<and> ssize_t stop)"
  by (auto simp: find_start_def search_raises split: sum.splits option.splits
      dest: search_returns)

lemma search_shine_regex_short:
  assumes "clamp (length s) endpos \<le> clamp (length s) pos + 3"
  shows "search shine_regex s pos endpos \<noteq> Inr (Some m)"
proof
  assume "search shine_regex s pos endpos = Inr (Some m)"
  then have "search shine_regex s pos endpos = Inr (Some (fst m, snd m))" by simp
  from search_SomeD [OF this] obtain n where
    1: "clamp (length s) pos \<le> fst m"
    and 2: "n \<in> set (ends shine_regex (drop (fst m) (take (clamp (length s) endpos) s)))"
    by blast
  from ends_shine_regex [OF 2] have "fst m + 4 \<le> clamp (length s) endpos"
    using clamp_le [of "length s" endpos] by auto
  with 1 assms show False by simp
qed

lemma has_shine_dalgarno_negative_window:
  "start - d < 0 \<Longrightarrow> has_shine_dalgarno r s start d = Inr False"
  by (simp add: has_shine_dalgarno_def)

lemma has_shine_dalgarno_raises:
  "has_shine_dalgarno r s start d = Inl e \<longleftrightarrow>
     e = OverflowError \<and> 0 \<le> start - d \<and> \<not> (ssize_t (start - d) \<and> ssize_t (start - 6))"
  by (auto simp: has_shine_dalgarno_def Let_def search_raises split: sum.splits option.splits
      dest: search_returns)

lemma has_shine_dalgarno_window:
  assumes "clamp (length s) (start - 6) \<le> clamp (length s) (start - d) + 3"
  shows "has_shine_dalgarno shine_regex s start d \<noteq> Inr True"
  using search_shine_regex_short [OF assms]
  by (auto simp: has_shine_dalgarno_def Let_def split: sum.splits option.splits)

lemma has_shine_dalgarno_values:
  assumes "has_shine_dalgarno r s start d \<noteq> Inr True"
      and "ssize_t (start - 6)" "start - d < 2 ^ 63"
  shows "has_shine_dalgarno r s start d = Inr False"
proof (cases "has_shine_dalgarno r s start d")
  case (Inl e)
  with assms(2,3) show ?thesis by (auto simp: has_shine_dalgarno_raises ssize_t_def)
next
  case (Inr v)
  with assms(1) show ?thesis by (cases v) simp_all
qed


lemma has_shine_dalgarno_at_0: "has_shine_dalgarno shine_regex s 0 d \<noteq> Inr True"
proof -
  have "clamp (length s) (0 - 6) \<le> clamp (length s) (0 - d) + 3"
    by (simp add: clamp_def)
  then show ?thesis by (rule has_shine_dalgarno_window)
qed

section \<open>The stop codon in frame\<close>

lemma stop_codon_at_drop_Nil: "drop i s = [] \<Longrightarrow> \<not> stop_codon_at s j \<or> j < i"
proof -
  assume "drop i s = []"
  then have "length s \<le> i" by simp
  then show ?thesis using stop_codon_length [of s j] by auto
qed

lemma ends_stop_regex_drop:
  "ends stop_regex (drop i s) = (if stop_codon_at s i then [3] else [])"
  by (simp add: ends_stop_regex stop_codon_at_def)

lemma first_shift:
  fixes r :: "(nat \<times> nat) option"
  assumes "case r of
             None \<Rightarrow> \<forall>j\<ge>Suc i. A j \<longrightarrow> \<not> Q j
           | Some m \<Rightarrow> Suc i \<le> fst m \<and> A (fst m) \<and> Q (fst m) \<and>
                       (\<forall>j. Suc i \<le> j \<and> j < fst m \<and> A j \<longrightarrow> \<not> Q j)"
      and "\<not> (A i \<and> Q i)"
  shows "case r of
           None \<Rightarrow> \<forall>j\<ge>i. A j \<longrightarrow> \<not> Q j
         | Some m \<Rightarrow> i \<le> fst m \<and> A (fst m) \<and> Q (fst m) \<and>
                     (\<forall>j. i \<le> j \<and> j < fst m \<and> A j \<longrightarrow> \<not> Q j)"
proof -
  have h: "j = i \<or> Suc i \<le> j" if "i \<le> j" for j using that by arith
  show ?thesis
  proof (cases r)
    case None
    with assms h show ?thesis by auto
  next
    case (Some m)
    with assms(1) have m: "Suc i \<le> fst m" "A (fst m)" "Q (fst m)"
      and least: "\<forall>j. Suc i \<le> j \<and> j < fst m \<and> A j \<longrightarrow> \<not> Q j" by simp_all
    have "\<not> Q j" if "i \<le> j" "j < fst m" "A j" for j
      using h [OF that(1)] that least assms(2) by auto
    with m Some show ?thesis by auto
  qed
qed

lemma find_iter_stop:
  assumes "t = drop i s"
      and "\<forall>j. i \<le> j \<and> j < i + k \<longrightarrow> \<not> stop_codon_at s j"
  shows "(case List.find (\<lambda>m. Q (fst m)) (iter stop_regex t i k) of
            None \<Rightarrow> \<forall>j\<ge>i. stop_codon_at s j \<longrightarrow> \<not> Q j
          | Some m \<Rightarrow> i \<le> fst m \<and> stop_codon_at s (fst m) \<and> Q (fst m) \<and>
                      (\<forall>j. i \<le> j \<and> j < fst m \<and> stop_codon_at s j \<longrightarrow> \<not> Q j))"
  using assms
proof (induction t arbitrary: i k)
  case Nil
  then have len: "length s \<le> i" by simp
  have none: "\<not> stop_codon_at s j" if "i \<le> j" for j
    using stop_codon_length [of s j] len that by auto
  have "ends stop_regex [] = []" by (simp add: ends_stop_regex stop_codons_def)
  then have "iter stop_regex [] i k = []" by simp
  with none show ?case by simp
next
  case (Cons c cs)
  from Cons.prems(1) have cs: "cs = drop (Suc i) s"
    by (metis drop_Suc tl_drop list.sel(3))
  have ends: "ends stop_regex (c # cs) = (if stop_codon_at s i then [3] else [])"
    using Cons.prems(1) ends_stop_regex_drop [of i s] by simp
  show ?case
  proof (cases "0 < k")
    case True
    with Cons.prems(2) have no_i: "\<not> stop_codon_at s i" by simp
    from Cons.prems(2) True
    have "\<forall>j. Suc i \<le> j \<and> j < Suc i + (k - 1) \<longrightarrow> \<not> stop_codon_at s j" by auto
    from first_shift [OF Cons.IH [OF cs this]] True no_i show ?thesis
      by simp
  next
    case False
    then have k: "k = 0" by simp
    show ?thesis
    proof (cases "stop_codon_at s i")
      case no_i: False
      have "\<forall>j. Suc i \<le> j \<and> j < Suc i + 0 \<longrightarrow> \<not> stop_codon_at s j" by auto
      from first_shift [OF Cons.IH [OF cs this]] k ends no_i show ?thesis
        by simp
    next
      case at_i: True
      from stop_no_overlap [OF at_i]
      have "\<forall>j. Suc i \<le> j \<and> j < Suc i + 2 \<longrightarrow> \<not> stop_codon_at s j"
        by (auto simp: less_Suc_eq_le le_Suc_eq numeral_2_eq_2)
      then have IH: "case List.find (\<lambda>m. Q (fst m)) (iter stop_regex cs (Suc i) 2) of
            None \<Rightarrow> \<forall>j\<ge>Suc i. stop_codon_at s j \<longrightarrow> \<not> Q j
          | Some m \<Rightarrow> Suc i \<le> fst m \<and> stop_codon_at s (fst m) \<and> Q (fst m) \<and>
                      (\<forall>j. Suc i \<le> j \<and> j < fst m \<and> stop_codon_at s j \<longrightarrow> \<not> Q j)"
        by (rule Cons.IH [OF cs])
      show ?thesis
      proof (cases "Q i")
        case True
        with k ends at_i show ?thesis by auto
      next
        case False
        with first_shift [OF IH] k ends at_i show ?thesis by simp
      qed
    qed
  qed
qed

lemma find_stop_raises:
  "find_stop r s from = Inl e \<longleftrightarrow> e = OverflowError \<and> \<not> ssize_t from"
  by (auto simp: find_stop_def finditer_def Let_def split: sum.splits option.splits)

lemma find_stop_cases:
  assumes "ssize_t from"
  shows "(case find_stop stop_regex s from of
            Inl e \<Rightarrow> False
          | Inr None \<Rightarrow> \<forall>q. \<not> in_frame_stop s from q
          | Inr (Some p) \<Rightarrow>
              in_frame_stop s from p \<and> (\<forall>q. in_frame_stop s from q \<longrightarrow> p \<le> q))"
proof -
  let ?p = "clamp (length s) from"
  let ?Q = "\<lambda>j. (int j - from) mod 3 = 0"
  have le: "?p \<le> nat q" if "from \<le> q" "0 \<le> q" "stop_codon_at s (nat q)" for q
    using that stop_codon_length [of s "nat q"] by (auto simp: clamp_def)
  have ge: "from \<le> int j" if "?p \<le> j" "stop_codon_at s j" for j
    using that stop_codon_length [of s j] by (auto simp: clamp_def split: if_splits)
  have "\<forall>j. ?p \<le> j \<and> j < ?p + 0 \<longrightarrow> \<not> stop_codon_at s j" by auto
  note main = find_iter_stop [of "drop ?p s" ?p s 0 ?Q, OF refl this]
  show ?thesis
  proof (cases "List.find (\<lambda>m. ?Q (fst m)) (iter stop_regex (drop ?p s) ?p 0)")
    case None
    with main have all: "\<forall>j\<ge>?p. stop_codon_at s j \<longrightarrow> \<not> ?Q j" by simp
    have "\<not> in_frame_stop s from q" for q
    proof
      assume a: "in_frame_stop s from q"
      then have q: "int (nat q) = q" by (simp add: in_frame_stop_def)
      from a have 1: "?p \<le> nat q" and 2: "stop_codon_at s (nat q)"
        using le by (auto simp: in_frame_stop_def)
      from a have 3: "?Q (nat q)" unfolding q by (simp add: in_frame_stop_def)
      from all [rule_format, OF 1 2] 3 show False by contradiction
    qed
    then have "\<forall>q. \<not> in_frame_stop s from q" ..
    moreover from None assms have "find_stop stop_regex s from = Inr None"
      by (simp add: find_stop_def finditer_def Let_def)
    ultimately show ?thesis by simp
  next
    case (Some m)
    with main have m: "?p \<le> fst m" "stop_codon_at s (fst m)" "?Q (fst m)"
      and least: "\<forall>j. ?p \<le> j \<and> j < fst m \<and> stop_codon_at s j \<longrightarrow> \<not> ?Q j" by simp_all
    have 1: "in_frame_stop s from (int (fst m))"
      using m ge [OF m(1) m(2)] by (simp add: in_frame_stop_def)
    have 2: "int (fst m) \<le> q" if "in_frame_stop s from q" for q
    proof (rule ccontr)
      assume "\<not> int (fst m) \<le> q"
      with that have 3: "nat q < fst m" and q: "int (nat q) = q"
        by (auto simp: in_frame_stop_def)
      from that have 4: "?p \<le> nat q" and 5: "stop_codon_at s (nat q)"
        using le by (auto simp: in_frame_stop_def)
      from that have 6: "?Q (nat q)" unfolding q by (simp add: in_frame_stop_def)
      from 3 4 5 have "?p \<le> nat q \<and> nat q < fst m \<and> stop_codon_at s (nat q)" by simp
      with least [rule_format, of "nat q"] have "\<not> ?Q (nat q)" .
      with 6 show False by contradiction
    qed
    then have "\<forall>q. in_frame_stop s from q \<longrightarrow> int (fst m) \<le> q" by simp
    moreover from Some assms have "find_stop stop_regex s from = Inr (Some (int (fst m)))"
      by (simp add: find_stop_def finditer_def Let_def)
    ultimately show ?thesis using 1 by simp
  qed
qed

text \<open>
  C4. \<open>find_stop\<close> returns the first position at or after \<open>from\<close> that holds a stop
  codon and whose offset from \<open>from\<close> is a multiple of 3, whatever stop codons out of
  frame come before it, and it returns nothing exactly when there is no such position.
  This holds for every \<open>from\<close> that \<^verbatim>\<open>finditer\<close> accepts as an index, as the start
  codon position given by \<open>find_start\<close> is; for any other \<open>from\<close> the call raises
  \<^verbatim>\<open>OverflowError\<close>.
\<close>

theorem find_stop_first_in_frame:
  "(find_stop stop_regex s from = Inr None \<longleftrightarrow>
      ssize_t from \<and> (\<forall>q. \<not> in_frame_stop s from q)) \<and>
   (find_stop stop_regex s from = Inr (Some p) \<longleftrightarrow>
      ssize_t from \<and> in_frame_stop s from p \<and> (\<forall>q. in_frame_stop s from q \<longrightarrow> p \<le> q)) \<and>
   (find_stop stop_regex s from = Inl e \<longleftrightarrow> e = OverflowError \<and> \<not> ssize_t from)"
proof (cases "ssize_t from")
  case False
  then have "find_stop stop_regex s from = Inl OverflowError"
    by (simp add: find_stop_raises)
  with False show ?thesis by auto
next
  case True
  note cases = find_stop_cases [OF True, of s]
  from True have raise: "find_stop stop_regex s from \<noteq> Inl e'" for e'
    by (simp add: find_stop_raises)
  show ?thesis
  proof (cases "find_stop stop_regex s from")
    case (Inl e')
    with raise [of e'] show ?thesis by simp
  next
    case (Inr v)
    show ?thesis
    proof (cases v)
      case None
      with Inr cases True show ?thesis by auto
    next
      case (Some p')
      with Inr cases
      have 1: "in_frame_stop s from p'" and 2: "\<forall>q. in_frame_stop s from q \<longrightarrow> p' \<le> q"
        by simp_all
      have "p = p'" if "in_frame_stop s from p" "\<forall>q. in_frame_stop s from q \<longrightarrow> p \<le> q"
        using that 1 2 by (meson order_antisym)
      with Inr Some 1 2 True show ?thesis by auto
    qed
  qed
qed

lemma find_stop_SomeD:
  assumes "find_stop stop_regex s from = Inr (Some p)"
  shows "from \<le> p \<and> 0 \<le> p \<and> (p - from) mod 3 = 0 \<and> p + 3 \<le> int (length s)"
proof -
  from assms have "ssize_t from"
    by (auto simp: find_stop_def finditer_def split: if_splits)
  from find_stop_cases [OF this, of s] assms have "in_frame_stop s from p" by simp
  then show ?thesis using stop_codon_length [of s "nat p"] by (auto simp: in_frame_stop_def)
qed

theorem find_stop_first_in_frame_witness:
  "find_stop stop_regex ''ATGATAGCCTAA'' 0 = Inr (Some 9) \<and> ssize_t 0 \<and>
   stop_codon_at ''ATGATAGCCTAA'' 4 \<and> \<not> in_frame_stop ''ATGATAGCCTAA'' 0 4 \<and>
   in_frame_stop ''ATGATAGCCTAA'' 0 9"
proof -
  have "find_stop stop_regex ''ATGATAGCCTAA'' 0 = Inr (Some 9)" by code_simp
  moreover have "stop_codon_at ''ATGATAGCCTAA'' 4"
    by (simp add: stop_codon_at_def stop_codons_def)
  moreover have "\<not> in_frame_stop ''ATGATAGCCTAA'' 0 4"
    by (simp add: in_frame_stop_def)
  ultimately show ?thesis using find_stop_first_in_frame [of "''ATGATAGCCTAA''" 0 9] by simp
qed

section \<open>The loop of predict_genes\<close>

lemma predict_body_cases:
  assumes re: "start_re P = start_regex" "stop_re P = stop_regex"
      and body: "predict_body P (c, gs) = Inr (Some (c', gs'))"
  obtains (reject) "c' = c + 1" "gs' = gs" "c + 3 \<le> int (length (sequence P))"
    | (accept) start_pos stop_pos where
        "c \<le> start_pos" "0 \<le> start_pos" "start_pos \<le> stop_pos"
        "(stop_pos - start_pos) mod 3 = 0"
        "min_gene_len P \<le> stop_pos - start_pos"
        "stop_pos + 3 \<le> int (length (sequence P))"
        "has_shine_dalgarno (shine_re P) (sequence P) start_pos (max_shine_dalgarno_distance P)
           = Inr True"
        "c' = stop_pos + 3 + min_gap P"
        "gs' = gs @ [(start_pos + 1, stop_pos + 3)]"
        "c + 3 \<le> int (length (sequence P))"
proof -
  let ?len = "int (length (sequence P))"
  from body obtain start_pos where
    fs: "find_start start_regex (sequence P) c ?len = Inr (Some start_pos)"
    by (auto simp: predict_body_def Let_def re split: if_splits sum.splits option.splits)
  from find_start_SomeD [OF fs]
  have sp: "c \<le> start_pos" "0 \<le> start_pos" "start_pos + 3 \<le> ?len" by simp_all
  then have c3: "c + 3 \<le> ?len" by simp
  from body fs obtain v where fst: "find_stop stop_regex (sequence P) start_pos = Inr v"
    by (auto simp: predict_body_def Let_def re split: if_splits sum.splits)
  show ?thesis
  proof (cases v)
    case None
    with body fs fst have "c' = c + 1" "gs' = gs"
      by (auto simp: predict_body_def Let_def re split: if_splits)
    then show ?thesis using c3 by (rule reject)
  next
    case (Some stop_pos)
    from find_stop_SomeD [OF fst [unfolded Some]]
    have st: "start_pos \<le> stop_pos" "(stop_pos - start_pos) mod 3 = 0"
      "stop_pos + 3 \<le> ?len" by simp_all
    show ?thesis
    proof (cases "stop_pos \<noteq> 0 \<and> min_gene_len P \<le> stop_pos - start_pos \<and>
        has_shine_dalgarno (shine_re P) (sequence P) start_pos (max_shine_dalgarno_distance P)
          = Inr True")
      case True
      with body fs fst Some have 1: "c' = stop_pos + 3 + min_gap P"
        and 2: "gs' = gs @ [(start_pos + 1, stop_pos + 3)]"
        by (auto simp: predict_body_def Let_def re split: if_splits)
      from True have 3: "min_gene_len P \<le> stop_pos - start_pos"
        and 4: "has_shine_dalgarno (shine_re P) (sequence P) start_pos
                  (max_shine_dalgarno_distance P) = Inr True" by simp_all
      from sp(1,2) st(1,2) 3 st(3) 4 1 2 c3 show ?thesis by (rule accept)
    next
      case False
      with body fs fst Some have "c' = c + 1" "gs' = gs"
        by (auto simp: predict_body_def Let_def re split: if_splits sum.splits bool.splits)
      then show ?thesis using c3 by (rule reject)
    qed
  qed
qed

text \<open>
  No pass raises when the cursor is a position of the sequence (or past it, with a
  \<open>min_gap\<close> that is not negative), the length of the sequence fits a \<^verbatim>\<open>ssize_t\<close>, as
  the length of every Python string does, and so does the length minus
  \<open>max_shine_dalgarno_distance\<close>.
\<close>

lemma predict_body_no_raise:
  assumes re: "start_re P = start_regex" "stop_re P = stop_regex"
      and len: "int (length (sequence P)) < 2 ^ 63"
      and msd: "int (length (sequence P)) - max_shine_dalgarno_distance P < 2 ^ 63"
      and c: "0 \<le> c" "c \<le> int (length (sequence P)) \<or> 0 \<le> min_gap P"
  shows "predict_body P (c, gs) \<noteq> Inl e"
proof (cases "min_gap P \<le> int (length (sequence P)) - c")
  case False
  then show ?thesis by (simp add: predict_body_def Let_def)
next
  case True
  let ?len = "int (length (sequence P))"
  from True c have cl: "c \<le> ?len" by auto
  with c(1) len have "ssize_t c" "ssize_t ?len" by (simp_all add: ssize_t_def)
  then obtain v where fs: "find_start start_regex (sequence P) c ?len = Inr v"
    using find_start_raises [of start_regex "sequence P" c ?len]
    by (cases "find_start start_regex (sequence P) c ?len") auto
  show ?thesis
  proof (cases v)
    case None
    with True fs show ?thesis by (simp add: predict_body_def Let_def re)
  next
    case (Some start_pos)
    from find_start_SomeD [OF fs [unfolded Some]]
    have sp: "0 \<le> start_pos" "start_pos + 3 \<le> ?len" by simp_all
    with len have "ssize_t start_pos" by (simp add: ssize_t_def)
    then obtain w where fst: "find_stop stop_regex (sequence P) start_pos = Inr w"
      using find_stop_raises [of stop_regex "sequence P" start_pos]
      by (cases "find_stop stop_regex (sequence P) start_pos") auto
    from sp len msd have "ssize_t (start_pos - 6)"
      "start_pos - max_shine_dalgarno_distance P < 2 ^ 63"
      by (simp_all add: ssize_t_def)
    then have "has_shine_dalgarno (shine_re P) (sequence P) start_pos
                 (max_shine_dalgarno_distance P) \<noteq> Inl e'" for e'
      by (auto simp: has_shine_dalgarno_raises ssize_t_def)
    then obtain b where hs: "has_shine_dalgarno (shine_re P) (sequence P) start_pos
                 (max_shine_dalgarno_distance P) = Inr b"
      by (cases "has_shine_dalgarno (shine_re P) (sequence P) start_pos
                 (max_shine_dalgarno_distance P)") auto
    from True fs Some fst hs show ?thesis
      by (cases w; cases b) (simp_all add: predict_body_def Let_def re)
  qed
qed

lemma predict_loop_iter:
  assumes "predict_loop P st = Some (Inr gs)"
  shows "\<exists>n st'. predict_iter P n st = Some st' \<and> predict_body P st' = Inr None \<and> snd st' = gs"
proof -
  let ?R = "\<lambda>x (r :: error + gene list). \<forall>gs. r = Inr gs \<longrightarrow>
              (\<exists>n st'. predict_iter (fst x) n (snd x) = Some st' \<and>
              predict_body (fst x) st' = Inr None \<and> snd st' = gs)"
  have "?R (P, st) (Inr gs)"
  proof (rule predict_loop.raw_induct [where Pa = ?R, OF _ assms])
    fix loop :: "params \<Rightarrow> int \<times> gene list \<Rightarrow> (error + gene list) option" and P st r
    assume IH: "\<And>P st r. loop P st = Some r \<Longrightarrow> ?R (P, st) r"
      and eq: "(case predict_body P st of Inl e \<Rightarrow> Some (Inl e)
                | Inr None \<Rightarrow> Some (Inr (snd st))
                | Inr (Some st') \<Rightarrow> loop P st') = Some r"
    show "?R (P, st) r"
    proof (intro allI impI)
      fix gs assume r: "r = Inr gs"
      show "\<exists>n st'. predict_iter (fst (P, st)) n (snd (P, st)) = Some st' \<and>
              predict_body (fst (P, st)) st' = Inr None \<and> snd st' = gs"
      proof (cases "predict_body P st")
        case (Inl e)
        with eq r show ?thesis by simp
      next
        case (Inr v)
        show ?thesis
        proof (cases v)
          case None
          with Inr eq r have "snd st = gs" by simp
          with None Inr
          have "predict_iter P 0 st = Some st \<and> predict_body P st = Inr None \<and> snd st = gs"
            by simp
          then show ?thesis unfolding fst_conv snd_conv by blast
        next
          case (Some st1)
          with Inr eq have "loop P st1 = Some r" by simp
          from IH [OF this] r obtain n st' where
            "predict_iter P n st1 = Some st'" "predict_body P st' = Inr None" "snd st' = gs"
            by auto
          with Some Inr
          have "predict_iter P (Suc n) st = Some st' \<and> predict_body P st' = Inr None \<and>
            snd st' = gs" by simp
          then show ?thesis unfolding fst_conv snd_conv by blast
        qed
      qed
    qed
  qed
  then show ?thesis by simp
qed

lemma predict_iter_loop:
  "predict_iter P n st = Some st' \<Longrightarrow> predict_body P st' = Inr None \<Longrightarrow>
   predict_loop P st = Some (Inr (snd st'))"
proof (induction n arbitrary: st)
  case 0
  then show ?case by (simp add: predict_loop.simps)
next
  case (Suc n)
  then obtain st1 where 1: "predict_body P st = Inr (Some st1)" "predict_iter P n st1 = Some st'"
    by (auto split: sum.splits option.splits)
  from Suc.IH [OF 1(2) Suc.prems(2)] 1(1) show ?case
    by (subst predict_loop.simps) simp
qed

lemma predict_iter_loop_raise:
  "predict_iter P n st = Some st' \<Longrightarrow> predict_body P st' = Inl e \<Longrightarrow>
   predict_loop P st = Some (Inl e)"
proof (induction n arbitrary: st)
  case 0
  then show ?case by (simp add: predict_loop.simps)
next
  case (Suc n)
  then obtain st1 where 1: "predict_body P st = Inr (Some st1)" "predict_iter P n st1 = Some st'"
    by (auto split: sum.splits option.splits)
  from Suc.IH [OF 1(2) Suc.prems(2)] 1(1) show ?case
    by (subst predict_loop.simps) simp
qed

lemma predict_iter_invariant:
  assumes "predict_iter P n st = Some st'"
      and "I st"
      and "\<And>st st'. I st \<Longrightarrow> predict_body P st = Inr (Some st') \<Longrightarrow> I st'"
  shows "I st'"
  using assms(1,2)
proof (induction n arbitrary: st)
  case 0
  then show ?case by simp
next
  case (Suc n)
  then obtain st1 where 1: "predict_body P st = Inr (Some st1)" "predict_iter P n st1 = Some st'"
    by (auto split: sum.splits option.splits)
  from assms(3) [OF Suc.prems(2) 1(1)] have "I st1" .
  from Suc.IH [OF 1(2) this] show ?case .
qed

text \<open>
  When every pass that goes on moves the cursor forward, the loop ends, by its
  condition, by \<^verbatim>\<open>break\<close> or by an exception, after at most \<open>length - c\<close> such passes.
\<close>

lemma predict_terminates:
  assumes re: "start_re P = start_regex" "stop_re P = stop_regex"
      and inc: "\<And>c gs c' gs'. predict_body P (c, gs) = Inr (Some (c', gs')) \<Longrightarrow> c < c'"
  shows "\<exists>n st'. int n \<le> max 0 (int (length (sequence P)) - c) \<and>
           predict_iter P n (c, gs) = Some st' \<and> (\<forall>x. predict_body P st' \<noteq> Inr (Some x))"
proof (induction "nat (int (length (sequence P)) - c)" arbitrary: c gs rule: less_induct)
  case less
  let ?len = "int (length (sequence P))"
  show ?case
  proof (cases "\<exists>x. predict_body P (c, gs) = Inr (Some x)")
    case False
    then have "int 0 \<le> max 0 (?len - c) \<and> predict_iter P 0 (c, gs) = Some (c, gs) \<and>
      (\<forall>x. predict_body P (c, gs) \<noteq> Inr (Some x))" by simp
    then show ?thesis by blast
  next
    case True
    then obtain c1 gs1 where Some: "predict_body P (c, gs) = Inr (Some (c1, gs1))" by auto
    have c3: "c + 3 \<le> ?len"
      by (rule predict_body_cases [OF re Some])
    from inc [OF Some] have lt: "c < c1" .
    from c3 lt have "nat (?len - c1) < nat (?len - c)" by simp
    from less [OF this, of gs1] obtain n st' where
      n: "int n \<le> max 0 (?len - c1)" and it: "predict_iter P n (c1, gs1) = Some st'"
      and ex: "\<forall>x. predict_body P st' \<noteq> Inr (Some x)" by blast
    from n c3 lt have "int (Suc n) \<le> max 0 (?len - c)" by simp
    moreover from Some it have "predict_iter P (Suc n) (c, gs) = Some st'" by simp
    ultimately show ?thesis using ex by blast
  qed
qed

lemma predict_loop_ends:
  assumes "predict_iter P n st = Some st'" and "\<forall>x. predict_body P st' \<noteq> Inr (Some x)"
  shows "(predict_body P st' = Inr None \<and> predict_loop P st = Some (Inr (snd st'))) \<or>
         (\<exists>e. predict_body P st' = Inl e \<and> predict_loop P st = Some (Inl e))"
proof (cases "predict_body P st'")
  case (Inl e)
  with predict_iter_loop_raise [OF assms(1) Inl] show ?thesis by simp
next
  case (Inr v)
  with assms(2) have "predict_body P st' = Inr None" by (cases v) auto
  with predict_iter_loop [OF assms(1) this] show ?thesis by simp
qed

lemma predict_body_increases:
  assumes "0 \<le> gap"
      and "predict_body (gpred sq mgl msd gap) (c, gs) = Inr (Some (c', gs'))"
  shows "c < c'"
proof (rule predict_body_cases [OF _ _ assms(2)])
  fix start_pos stop_pos
  assume "c \<le> start_pos" "start_pos \<le> stop_pos"
    "c' = stop_pos + 3 + min_gap (gpred sq mgl msd gap)"
  with assms(1) show "c < c'" by simp
qed simp_all

lemma predict_genes_returns:
  assumes gap: "0 \<le> gap"
      and len: "int (length sq) < 2 ^ 63" and msd: "int (length sq) - msd < 2 ^ 63"
  shows "\<exists>gs. predict_genes sq start_regex stop_regex shine_regex mgl msd gap = Some (Inr gs)"
proof -
  let ?P = "gpred sq mgl msd gap"
  have inc: "c < c'" if "predict_body ?P (c, gs) = Inr (Some (c', gs'))" for c gs c' gs'
    using predict_body_increases [OF gap that] .
  from predict_terminates [of ?P 0 "[]"] inc obtain n st' where
    it: "predict_iter ?P n (0, []) = Some st'"
    and ex: "\<forall>x. predict_body ?P st' \<noteq> Inr (Some x)"
    by auto
  have "0 \<le> fst st'"
  proof (rule predict_iter_invariant [OF it, where I = "\<lambda>st. 0 \<le> fst st"])
    show "0 \<le> fst (0::int, []::gene list)" by simp
  next
    fix st st1 :: "int \<times> gene list"
    assume a: "0 \<le> fst st" and b: "predict_body ?P st = Inr (Some st1)"
    obtain c gs0 c1 gs1 where "st = (c, gs0)" "st1 = (c1, gs1)"
      by (cases st, cases st1) auto
    with a b inc [of c gs0 c1 gs1] show "0 \<le> fst st1" by simp
  qed
  then have "predict_body ?P (fst st', snd st') \<noteq> Inl e" for e
    using predict_body_no_raise [of ?P "fst st'" "snd st'" e] gap len msd by simp
  with predict_loop_ends [OF it ex] show ?thesis
    by (auto simp: predict_genes_def)
qed

text \<open>
  C8. When \<open>min_gap\<close> is not negative, every pass through the loop body that goes on
  moves the cursor strictly forward (by 1 on a rejection, to \<open>stop_pos + 3 + min_gap\<close> on
  an acceptance), and \<open>predict_genes\<close> ends: after at most \<open>length sq\<close> such passes the
  loop is left. It is left by its condition or by \<^verbatim>\<open>break\<close>, and the function returns
  its list, whenever the length of the sequence and that length minus
  \<open>max_shine_dalgarno_distance\<close> are below \<open>2^63\<close>, which is so for every Python string
  and every distance that is not negative; otherwise an index of a search can leave
  the range of \<^verbatim>\<open>ssize_t\<close>, and the loop is then left by \<^verbatim>\<open>OverflowError\<close>.
\<close>

theorem predict_genes_terminates:
  assumes "0 \<le> gap"
  shows "(\<forall>c gs c' gs'. predict_body (gpred sq mgl msd gap) (c, gs) = Inr (Some (c', gs')) \<longrightarrow>
            c < c') \<and>
         (\<exists>n st'. n \<le> length sq \<and>
            predict_iter (gpred sq mgl msd gap) n (0, []) = Some st' \<and>
            ((predict_body (gpred sq mgl msd gap) st' = Inr None \<and>
              predict_genes sq start_regex stop_regex shine_regex mgl msd gap =
                Some (Inr (snd st'))) \<or>
             (predict_body (gpred sq mgl msd gap) st' = Inl OverflowError \<and>
              predict_genes sq start_regex stop_regex shine_regex mgl msd gap =
                Some (Inl OverflowError) \<and>
              \<not> (int (length sq) < 2 ^ 63 \<and> int (length sq) - msd < 2 ^ 63)))) \<and>
         (int (length sq) < 2 ^ 63 \<and> int (length sq) - msd < 2 ^ 63 \<longrightarrow>
            (\<exists>genes. predict_genes sq start_regex stop_regex shine_regex mgl msd gap =
               Some (Inr genes)))"
proof -
  let ?P = "gpred sq mgl msd gap"
  have ret: "int (length sq) < 2 ^ 63 \<and> int (length sq) - msd < 2 ^ 63 \<longrightarrow>
            (\<exists>genes. predict_genes sq start_regex stop_regex shine_regex mgl msd gap =
               Some (Inr genes))"
    using predict_genes_returns [OF assms, of sq msd mgl] by simp
  have inc: "c < c'" if "predict_body ?P (c, gs) = Inr (Some (c', gs'))" for c gs c' gs'
    using predict_body_increases [OF assms that] .
  from predict_terminates [of ?P 0 "[]"] inc obtain n st' where
    n: "int n \<le> max 0 (int (length (sequence ?P)) - 0)"
    and it: "predict_iter ?P n (0, []) = Some st'"
    and ex: "\<forall>x. predict_body ?P st' \<noteq> Inr (Some x)"
    by auto
  from n have n': "n \<le> length sq" by simp
  from predict_loop_ends [OF it ex]
  consider (ret) "predict_body ?P st' = Inr None"
      "predict_genes sq start_regex stop_regex shine_regex mgl msd gap = Some (Inr (snd st'))"
    | (raise) e where "predict_body ?P st' = Inl e"
      "predict_genes sq start_regex stop_regex shine_regex mgl msd gap = Some (Inl e)"
    by (auto simp: predict_genes_def)
  then have "(predict_body ?P st' = Inr None \<and>
              predict_genes sq start_regex stop_regex shine_regex mgl msd gap =
                Some (Inr (snd st'))) \<or>
             (predict_body ?P st' = Inl OverflowError \<and>
              predict_genes sq start_regex stop_regex shine_regex mgl msd gap =
                Some (Inl OverflowError) \<and>
              \<not> (int (length sq) < 2 ^ 63 \<and> int (length sq) - msd < 2 ^ 63))"
  proof cases
    case ret
    then show ?thesis by simp
  next
    case raise
    have e: "e = OverflowError"
      using raise(1)
      by (auto simp: predict_body_def Let_def find_start_raises find_stop_raises
          has_shine_dalgarno_raises split: if_splits sum.splits option.splits bool.splits)
    have "\<not> (int (length sq) < 2 ^ 63 \<and> int (length sq) - msd < 2 ^ 63)"
    proof
      assume "int (length sq) < 2 ^ 63 \<and> int (length sq) - msd < 2 ^ 63"
      then obtain gs where
        "predict_genes sq start_regex stop_regex shine_regex mgl msd gap = Some (Inr gs)"
        using predict_genes_returns [OF assms, of sq msd mgl] by auto
      with raise(2) show False by simp
    qed
    with raise e show ?thesis by simp
  qed
  with inc n' it ret show ?thesis by blast
qed

lemma example_gene:
  "predict_genes ''GGAGCCCCCCATGTAA'' start_regex stop_regex shine_regex 3 10 0 =
     Some (Inr [(11, 16)])"
  by code_simp

theorem predict_genes_terminates_witness:
  "(0::int) \<le> 0 \<and> int (length ''GGAGCCCCCCATGTAA'') < 2 ^ 63 \<and>
   int (length ''GGAGCCCCCCATGTAA'') - 10 < 2 ^ 63 \<and>
   predict_body (gpred ''GGAGCCCCCCATGTAA'' 3 10 0) (0, []) = Inr (Some (16, [(11, 16)])) \<and>
   (0::int) < 16 \<and>
   (\<exists>n st'. n \<le> length ''GGAGCCCCCCATGTAA'' \<and>
      predict_iter (gpred ''GGAGCCCCCCATGTAA'' 3 10 0) n (0, []) = Some st' \<and>
      predict_body (gpred ''GGAGCCCCCCATGTAA'' 3 10 0) st' = Inr None \<and>
      predict_genes ''GGAGCCCCCCATGTAA'' start_regex stop_regex shine_regex 3 10 0 =
        Some (Inr (snd st')))"
proof -
  have "predict_body (gpred ''GGAGCCCCCCATGTAA'' 3 10 0) (0, []) = Inr (Some (16, [(11, 16)]))"
    by code_simp
  with predict_genes_terminates [of 0 "''GGAGCCCCCCATGTAA''" 3 10] example_gene
  show ?thesis by auto
qed






section \<open>The accepted intervals\<close>

lemma predict_genes_accepted:
  assumes ret: "predict_genes sq start_regex stop_regex shine_regex mgl msd gap = Some (Inr gs)"
      and g: "g \<in> set gs"
  shows "\<exists>start_pos stop_pos. g = (start_pos + 1, stop_pos + 3) \<and> 0 \<le> start_pos \<and>
           start_pos \<le> stop_pos \<and> (stop_pos - start_pos) mod 3 = 0 \<and>
           mgl \<le> stop_pos - start_pos \<and> stop_pos + 3 \<le> int (length sq)"
proof -
  let ?P = "gpred sq mgl msd gap"
  let ?A = "\<lambda>g. \<exists>start_pos stop_pos. g = (start_pos + 1, stop_pos + 3) \<and> 0 \<le> start_pos \<and>
           start_pos \<le> stop_pos \<and> (stop_pos - start_pos) mod 3 = 0 \<and>
           mgl \<le> stop_pos - start_pos \<and> stop_pos + 3 \<le> int (length sq)"
  from ret have "predict_loop ?P (0, []) = Some (Inr gs)" by (simp add: predict_genes_def)
  from predict_loop_iter [OF this] obtain n st' where
    it: "predict_iter ?P n (0, []) = Some st'" and gs: "snd st' = gs" by blast
  have "\<forall>g\<in>set (snd st'). ?A g"
  proof (rule predict_iter_invariant [OF it, where I = "\<lambda>st. \<forall>g\<in>set (snd st). ?A g"])
    show "\<forall>g\<in>set (snd (0::int, []::gene list)). ?A g" by simp
  next
    fix st st1 :: "int \<times> gene list"
    assume I: "\<forall>g\<in>set (snd st). ?A g" and b: "predict_body ?P st = Inr (Some st1)"
    obtain c gs0 c1 gs1 where st: "st = (c, gs0)" "st1 = (c1, gs1)"
      by (cases st, cases st1) auto
    show "\<forall>g\<in>set (snd st1). ?A g"
    proof (rule predict_body_cases [OF _ _ b [unfolded st]])
      assume "gs1 = gs0"
      with I st show ?thesis by simp
    next
      fix a b
      assume acc: "0 \<le> a" "a \<le> b" "(b - a) mod 3 = 0" "min_gene_len ?P \<le> b - a"
        "b + 3 \<le> int (length (sequence ?P))" "gs1 = gs0 @ [(a + 1, b + 3)]"
      have "?A (a + 1, b + 3)"
        by (rule exI [of _ a], rule exI [of _ b]) (use acc in simp)
      with I st acc(6) show ?thesis by simp
    qed simp_all
  qed
  from this [unfolded gs, rule_format, OF g] show ?thesis .
qed

text \<open>
  C6. When \<open>min_gene_len\<close> is positive, every interval \<open>(s, e)\<close> of a list returned by
  \<open>predict_genes\<close> has \<open>s < e\<close>, a length \<open>e - s + 1\<close> that is a multiple of 3, and a
  length of at least \<open>min_gene_len\<close>.
\<close>

theorem gene_interval_invariant:
  assumes "0 < mgl"
      and "predict_genes sq start_regex stop_regex shine_regex mgl msd gap = Some (Inr gs)"
      and "(s, e) \<in> set gs"
  shows "s < e \<and> (e - s + 1) mod 3 = 0 \<and> mgl \<le> e - s + 1"
proof -
  from predict_genes_accepted [OF assms(2,3)] obtain a b where
    se: "s = a + 1" "e = b + 3" and ab: "a \<le> b" "(b - a) mod 3 = 0" "mgl \<le> b - a"
    by auto
  have eq: "e - s + 1 = (b - a) + 3" using se by simp
  have "((b - a) + 3) mod 3 = 0" using ab(2) by simp
  then have "(e - s + 1) mod 3 = 0" unfolding eq .
  moreover have "s < e" using se ab(1) by simp
  moreover have "mgl \<le> e - s + 1" unfolding eq using ab(3) by simp
  ultimately show ?thesis by simp
qed

theorem gene_interval_invariant_witness:
  "(0::int) < 3 \<and>
   predict_genes ''GGAGCCCCCCATGTAA'' start_regex stop_regex shine_regex 3 10 0 =
     Some (Inr [(11, 16)]) \<and>
   (11::int) < 16 \<and> ((16::int) - 11 + 1) mod 3 = 0 \<and> (3::int) \<le> 16 - 11 + 1"
  using gene_interval_invariant [of 3 "''GGAGCCCCCCATGTAA''" 10 0 "[(11, 16)]" 11 16]
    example_gene by simp

text \<open>
  C3, as the code has it. The acceptance test compares \<open>stop_pos - start_pos\<close> with
  \<open>min_gene_len\<close>, and the reported interval is \<open>(start_pos + 1, stop_pos + 3)\<close>: the
  reported length \<open>e - s + 1\<close> is \<open>stop_pos - start_pos + 3\<close>, at least
  \<open>min_gene_len + 3\<close>. The witness has an interval whose length is \<open>min_gene_len + 3\<close>.
\<close>

theorem accepted_reported_length:
  assumes "predict_genes sq start_regex stop_regex shine_regex mgl msd gap = Some (Inr gs)"
      and "(s, e) \<in> set gs"
  shows "\<exists>start_pos stop_pos. s = start_pos + 1 \<and> e = stop_pos + 3 \<and>
           mgl \<le> stop_pos - start_pos \<and> e - s + 1 = stop_pos - start_pos + 3 \<and>
           mgl + 3 \<le> e - s + 1"
proof -
  from predict_genes_accepted [OF assms] obtain a b where
    se: "s = a + 1" "e = b + 3" and ab: "mgl \<le> b - a"
    by auto
  then have "s = a + 1 \<and> e = b + 3 \<and> mgl \<le> b - a \<and> e - s + 1 = b - a + 3 \<and>
    mgl + 3 \<le> e - s + 1" by simp
  then show ?thesis by blast
qed

theorem accepted_reported_length_witness:
  "predict_genes ''GGAGCCCCCCATGTAA'' start_regex stop_regex shine_regex 3 10 0 =
     Some (Inr [(11, 16)]) \<and>
   (\<exists>start_pos stop_pos. (11::int) = start_pos + 1 \<and> (16::int) = stop_pos + 3 \<and>
      3 \<le> stop_pos - start_pos \<and> (16::int) - 11 + 1 = stop_pos - start_pos + 3) \<and>
   (16::int) - 11 + 1 = 3 + 3"
  using accepted_reported_length [of "''GGAGCCCCCCATGTAA''" 3 10 0 "[(11, 16)]" 11 16]
    example_gene by simp

text \<open>
  C3, as the specification states it, fails: for \<open>min_gene_len = 3\<close> no sequence and no
  parameters give an accepted interval of reported length \<open>min_gene_len + 2\<close>.
\<close>

theorem reported_length_never_plus_2:
  "\<not> (\<exists>sq msd gap gs s e.
        predict_genes sq start_regex stop_regex shine_regex 3 msd gap = Some (Inr gs) \<and>
        (s, e) \<in> set gs \<and> e - s + 1 = 3 + 2)"
proof
  assume "\<exists>sq msd gap gs s e.
        predict_genes sq start_regex stop_regex shine_regex 3 msd gap = Some (Inr gs) \<and>
        (s, e) \<in> set gs \<and> e - s + 1 = 3 + 2"
  then obtain sq msd gap gs s e where
    1: "predict_genes sq start_regex stop_regex shine_regex 3 msd gap = Some (Inr gs)"
    and 2: "(s, e) \<in> set gs" and 3: "e - s + 1 = 3 + 2" by blast
  from predict_genes_accepted [OF 1 2] obtain a b where
    "s = a + 1" "e = b + 3" "3 \<le> b - a" by auto
  with 3 show False by simp
qed

section \<open>Order and spacing on one strand\<close>

lemma predict_genes_gap_invariant:
  assumes ret: "predict_genes sq start_regex stop_regex shine_regex mgl msd gap = Some (Inr gs)"
  shows "successively (\<lambda>a b. gap \<le> fst b - snd a - 1) gs"
proof -
  let ?P = "gpred sq mgl msd gap"
  let ?G = "\<lambda>a b :: gene. gap \<le> fst b - snd a - 1"
  let ?I = "\<lambda>st :: int \<times> gene list.
      successively ?G (snd st) \<and> (snd st \<noteq> [] \<longrightarrow> snd (last (snd st)) + gap \<le> fst st)"
  from ret have "predict_loop ?P (0, []) = Some (Inr gs)" by (simp add: predict_genes_def)
  from predict_loop_iter [OF this] obtain n st' where
    it: "predict_iter ?P n (0, []) = Some st'" and gs: "snd st' = gs" by blast
  have "?I st'"
  proof (rule predict_iter_invariant [OF it, where I = ?I])
    show "?I (0, [])" by simp
  next
    fix st st1 :: "int \<times> gene list"
    assume I: "?I st" and b: "predict_body ?P st = Inr (Some st1)"
    obtain c gs0 c1 gs1 where st: "st = (c, gs0)" "st1 = (c1, gs1)"
      by (cases st, cases st1) auto
    show "?I st1"
    proof (rule predict_body_cases [OF _ _ b [unfolded st]])
      assume "c1 = c + 1" "gs1 = gs0"
      with I st show ?thesis by auto
    next
      fix a b
      assume acc: "c \<le> a" "c1 = b + 3 + min_gap ?P" "gs1 = gs0 @ [(a + 1, b + 3)]"
      from I st acc(1) have "gs0 = [] \<or> ?G (last gs0) (a + 1, b + 3)" by auto
      with I st have "successively ?G (gs0 @ [(a + 1, b + 3)])"
        by (auto simp: successively_append_iff)
      with st acc show ?thesis by simp
    qed simp_all
  qed
  with gs show ?thesis by simp
qed

lemma predict_genes_sorted_invariant:
  assumes gap: "0 \<le> gap"
      and ret: "predict_genes sq start_regex stop_regex shine_regex mgl msd gap = Some (Inr gs)"
  shows "sorted_wrt (\<lambda>a b. snd a < fst b) gs \<and> (\<forall>g\<in>set gs. fst g < snd g)"
proof -
  let ?P = "gpred sq mgl msd gap"
  let ?I = "\<lambda>st :: int \<times> gene list.
      sorted_wrt (\<lambda>a b. snd a < fst b) (snd st) \<and>
      (\<forall>g\<in>set (snd st). fst g < snd g \<and> snd g \<le> fst st)"
  from ret have "predict_loop ?P (0, []) = Some (Inr gs)" by (simp add: predict_genes_def)
  from predict_loop_iter [OF this] obtain n st' where
    it: "predict_iter ?P n (0, []) = Some st'" and gs: "snd st' = gs" by blast
  have "?I st'"
  proof (rule predict_iter_invariant [OF it, where I = ?I])
    show "?I (0, [])" by simp
  next
    fix st st1 :: "int \<times> gene list"
    assume I: "?I st" and b: "predict_body ?P st = Inr (Some st1)"
    obtain c gs0 c1 gs1 where st: "st = (c, gs0)" "st1 = (c1, gs1)"
      by (cases st, cases st1) auto
    show "?I st1"
    proof (rule predict_body_cases [OF _ _ b [unfolded st]])
      assume "c1 = c + 1" "gs1 = gs0"
      with I st show ?thesis by auto
    next
      fix a b
      assume acc: "c \<le> a" "a \<le> b" "c1 = b + 3 + min_gap ?P" "gs1 = gs0 @ [(a + 1, b + 3)]"
      from I st have old: "\<forall>g\<in>set gs0. fst g < snd g \<and> snd g \<le> c"
        and srt: "sorted_wrt (\<lambda>a b. snd a < fst b) gs0" by simp_all
      from old acc(1,2) gap have 1: "\<forall>g\<in>set gs0. snd g < a + 1 \<and> snd g \<le> b + 3 + gap"
        by fastforce
      from srt 1 have "sorted_wrt (\<lambda>a b. snd a < fst b) (gs0 @ [(a + 1, b + 3)])"
        by (simp add: sorted_wrt_append)
      moreover from old 1 acc(2) gap
      have "\<forall>g\<in>set (gs0 @ [(a + 1, b + 3)]). fst g < snd g \<and> snd g \<le> b + 3 + gap"
        by auto
      ultimately show ?thesis using st acc by simp
    qed simp_all
  qed
  with gs show ?thesis by simp
qed

text \<open>
  C5, as the code has it. In every list that \<open>predict_genes\<close> returns, two consecutive
  intervals \<open>(s1, e1)\<close>, \<open>(s2, e2)\<close> have \<open>s2 - e1 - 1 \<ge> min_gap\<close>. When \<open>min_gap\<close> is
  not negative, every list that it returns is ascending by start position, and every
  interval of it ends before every later one starts: no two overlap. It does return a
  list then, when the length of the sequence and that length minus
  \<open>max_shine_dalgarno_distance\<close> are below \<open>2^63\<close>.
\<close>

theorem predict_genes_spacing:
  "(predict_genes sq start_regex stop_regex shine_regex mgl msd gap = Some (Inr gs) \<longrightarrow>
      successively (\<lambda>a b. gap \<le> fst b - snd a - 1) gs \<and>
      (0 \<le> gap \<longrightarrow>
         sorted_wrt (\<lambda>a b. fst a < fst b) gs \<and>
         sorted_wrt (\<lambda>a b. snd a < fst b) gs \<and>
         (\<forall>g\<in>set gs. fst g < snd g))) \<and>
   (0 \<le> gap \<and> int (length sq) < 2 ^ 63 \<and> int (length sq) - msd < 2 ^ 63 \<longrightarrow>
      (\<exists>gs'. predict_genes sq start_regex stop_regex shine_regex mgl msd gap = Some (Inr gs')))"
proof (intro conjI impI)
  assume "predict_genes sq start_regex stop_regex shine_regex mgl msd gap = Some (Inr gs)"
  then show "successively (\<lambda>a b. gap \<le> fst b - snd a - 1) gs"
    by (rule predict_genes_gap_invariant)
next
  assume ret: "predict_genes sq start_regex stop_regex shine_regex mgl msd gap = Some (Inr gs)"
    and gap: "0 \<le> gap"
  from predict_genes_sorted_invariant [OF gap ret]
  have 1: "sorted_wrt (\<lambda>a b. snd a < fst b) gs" and 2: "\<forall>g\<in>set gs. fst g < snd g"
    by simp_all
  show "sorted_wrt (\<lambda>a b. snd a < fst b) gs" by (rule 1)
  show "\<forall>g\<in>set gs. fst g < snd g" by (rule 2)
  show "sorted_wrt (\<lambda>a b. fst a < fst b) gs"
  proof (rule sorted_wrt_mono_rel [OF _ 1])
    fix x y :: gene assume "x \<in> set gs" "snd x < fst y"
    with 2 show "fst x < fst y" by fastforce
  qed
next
  assume "0 \<le> gap \<and> int (length sq) < 2 ^ 63 \<and> int (length sq) - msd < 2 ^ 63"
  then show "\<exists>gs'. predict_genes sq start_regex stop_regex shine_regex mgl msd gap =
      Some (Inr gs')"
    using predict_genes_returns [of gap sq msd mgl] by simp
qed

lemma example_two_genes:
  "predict_genes ''GGAGCCCCCCATGTAAGGAGCCCCCCATGTAA'' start_regex stop_regex shine_regex 3 10 0 =
     Some (Inr [(11, 16), (27, 32)])"
  by code_simp

theorem predict_genes_spacing_witness:
  "predict_genes ''GGAGCCCCCCATGTAAGGAGCCCCCCATGTAA'' start_regex stop_regex shine_regex 3 10 0 =
     Some (Inr [(11, 16), (27, 32)]) \<and>
   successively (\<lambda>a b. (0::int) \<le> fst b - snd a - 1) [(11, 16), (27, 32)] \<and>
   (0::int) \<le> 0 \<and>
   int (length ''GGAGCCCCCCATGTAAGGAGCCCCCCATGTAA'') < 2 ^ 63 \<and>
   int (length ''GGAGCCCCCCATGTAAGGAGCCCCCCATGTAA'') - 10 < 2 ^ 63 \<and>
   sorted_wrt (\<lambda>a b. fst a < fst b) [(11::int, 16::int), (27, 32)] \<and>
   sorted_wrt (\<lambda>a b. snd a < fst b) [(11::int, 16::int), (27, 32)]"
  using predict_genes_spacing [of "''GGAGCCCCCCATGTAAGGAGCCCCCCATGTAA''" 3 10 0 "[(11, 16), (27, 32)]"]
    example_two_genes by simp

text \<open>
  C5, as the specification states it, fails for a negative \<open>min_gap\<close>: with \<open>min_gap = -1\<close>
  the two intervals returned here share position 25.
\<close>

theorem negative_gap_overlap:
  "predict_genes ''GGAGCCCCCCATGCGGAGCCCCTAATGCCCTAA'' start_regex stop_regex shine_regex 3 10 (- 1) =
     Some (Inr [(11, 25), (25, 33)]) \<and>
   \<not> sorted_wrt (\<lambda>a b. snd a < fst b) [(11::int, 25::int), (25, 33)]"
proof -
  have "predict_genes ''GGAGCCCCCCATGCGGAGCCCCTAATGCCCTAA'' start_regex stop_regex shine_regex
      3 10 (- 1) = Some (Inr [(11, 25), (25, 33)])" by code_simp
  then show ?thesis by simp
qed

section \<open>A start codon without an upstream motif\<close>

lemma ATGAAATAG_find_start_0: "find_start start_regex ''ATGAAATAG'' 0 9 = Inr (Some 0)"
  by code_simp

lemma ATGAAATAG_find_start_1: "find_start start_regex ''ATGAAATAG'' 1 9 = Inr None"
  by code_simp

lemma ATGAAATAG_find_stop: "find_stop stop_regex ''ATGAAATAG'' 0 = Inr (Some 6)"
  by code_simp

lemma ATGAAATAG_no_motif:
  assumes "- (2 ^ 63) < msd"
  shows "has_shine_dalgarno shine_regex ''ATGAAATAG'' 0 msd = Inr False"
proof (rule has_shine_dalgarno_values [OF has_shine_dalgarno_at_0])
  show "ssize_t (0 - 6)" by (simp add: ssize_t_def)
  show "0 - msd < 2 ^ 63" using assms by simp
qed

lemma ATGAAATAG_body_0:
  assumes "- (2 ^ 63) < msd"
  shows "predict_body (gpred ''ATGAAATAG'' mgl msd gap) (0, []) =
           (if gap \<le> 9 then Inr (Some (1, [])) else Inr None)"
  by (simp add: predict_body_def ATGAAATAG_find_start_0 ATGAAATAG_find_stop
      ATGAAATAG_no_motif [OF assms])

lemma ATGAAATAG_body_1:
  "predict_body (gpred ''ATGAAATAG'' mgl msd gap) (1, []) = Inr None"
  by (simp add: predict_body_def ATGAAATAG_find_start_1)

text \<open>
  C7, as the code has it. \<open>has_shine_dalgarno\<close> is false whenever
  \<open>start - max_shine_dalgarno_distance\<close> is negative, whatever the pattern and the
  sequence (nothing is searched). On \<^verbatim>\<open>"ATGAAATAG"\<close> it is false at start 0 for every
  distance above \<open>-2^63\<close>, and \<open>predict_genes\<close> then returns the empty list for all values
  of the two other parameters.
\<close>

theorem no_upstream_motif_at_0:
  "(start - d < 0 \<longrightarrow> has_shine_dalgarno r s start d = Inr False) \<and>
   (- (2 ^ 63) < msd \<longrightarrow>
      has_shine_dalgarno shine_regex ''ATGAAATAG'' 0 msd = Inr False \<and>
      predict_genes ''ATGAAATAG'' start_regex stop_regex shine_regex mgl msd gap = Some (Inr []))"
proof (intro conjI impI)
  assume "start - d < 0"
  then show "has_shine_dalgarno r s start d = Inr False"
    by (rule has_shine_dalgarno_negative_window)
next
  assume "- (2 ^ 63) < msd"
  then show "has_shine_dalgarno shine_regex ''ATGAAATAG'' 0 msd = Inr False"
    by (rule ATGAAATAG_no_motif)
next
  assume msd: "- (2 ^ 63) < msd"
  have "predict_loop (gpred ''ATGAAATAG'' mgl msd gap) (0, []) = Some (Inr [])"
    by (simp add: predict_loop.simps [of _ "(0, [])"] predict_loop.simps [of _ "(1, [])"]
        ATGAAATAG_body_0 [OF msd] ATGAAATAG_body_1)
  then show "predict_genes ''ATGAAATAG'' start_regex stop_regex shine_regex mgl msd gap =
      Some (Inr [])"
    by (simp add: predict_genes_def)
qed

theorem no_upstream_motif_at_0_witness:
  "(0::int) - 16 < 0 \<and> has_shine_dalgarno shine_regex ''GGAGCCCCCCATGTAA'' 0 16 = Inr False \<and>
   - (2 ^ 63) < (16::int) \<and>
   has_shine_dalgarno shine_regex ''ATGAAATAG'' 0 16 = Inr False \<and>
   predict_genes ''ATGAAATAG'' start_regex stop_regex shine_regex 3 16 0 = Some (Inr [])"
  using no_upstream_motif_at_0 [of 0 16 shine_regex "''GGAGCCCCCCATGTAA''" 16 3 0] by simp

text \<open>
  C7, as the specification states it, fails: with the distance \<open>-2^63\<close> the window starts
  at \<open>2^63\<close>, which is not negative, and the search raises \<^verbatim>\<open>OverflowError\<close>, in
  \<open>has_shine_dalgarno\<close> at start 0 and in \<open>predict_genes\<close>.
\<close>

theorem no_upstream_motif_overflow:
  "has_shine_dalgarno shine_regex ''ATGAAATAG'' 0 (- (2 ^ 63)) = Inl OverflowError \<and>
   predict_genes ''ATGAAATAG'' start_regex stop_regex shine_regex 3 (- (2 ^ 63)) 0 =
     Some (Inl OverflowError)"
proof -
  have "has_shine_dalgarno shine_regex ''ATGAAATAG'' 0 (- (2 ^ 63)) = Inl OverflowError"
    by code_simp
  moreover
  have "predict_genes ''ATGAAATAG'' start_regex stop_regex shine_regex 3 (- (2 ^ 63)) 0 =
     Some (Inl OverflowError)"
    by code_simp
  ultimately show ?thesis by simp
qed

section \<open>The list of both strands\<close>

lemma sorted_fst:
  fixes xs :: "gene list"
  shows "sorted xs \<Longrightarrow> sorted (map fst xs)"
  by (induction xs) (auto simp: less_eq_prod_def)

text \<open>
  C1, as the code has it. The list handed to the writers is the list of the forward
  strand followed by the remapped list of the reverse strand; only the second part is
  sorted. Consecutive start positions do not decrease inside the second part, nor
  inside the first part when \<open>min_gap\<close> is not negative.
\<close>

theorem main_genes_order:
  assumes "main_genes sq mgl msd gap = Some (Inr all_genes)"
  shows "\<exists>genes sequence_rc genes_rc genes_cor.
           predict_genes sq start_regex stop_regex shine_regex mgl msd gap = Some (Inr genes) \<and>
           reverse_complement sq = Inr sequence_rc \<and>
           predict_genes sequence_rc start_regex stop_regex shine_regex mgl msd gap =
             Some (Inr genes_rc) \<and>
           genes_cor = sort (map (\<lambda>(start, end).
                         (int (length sq) - end + 1, int (length sq) - start + 1)) genes_rc) \<and>
           all_genes = genes @ genes_cor \<and>
           sorted (map fst genes_cor) \<and>
           (0 \<le> gap \<longrightarrow> sorted_wrt (\<lambda>a b. fst a < fst b) genes)"
proof -
  from assms obtain genes sequence_rc genes_rc where
    1: "predict_genes sq start_regex stop_regex shine_regex mgl msd gap = Some (Inr genes)"
    and 2: "reverse_complement sq = Inr sequence_rc"
    and 3: "predict_genes sequence_rc start_regex stop_regex shine_regex mgl msd gap =
              Some (Inr genes_rc)"
    and 4: "all_genes = genes @ sort (map (\<lambda>(start, end).
                         (int (length sq) - end + 1, int (length sq) - start + 1)) genes_rc)"
    by (auto simp: main_genes_def Let_def split: option.splits sum.splits)
  let ?cor = "sort (map (\<lambda>(start, end).
                         (int (length sq) - end + 1, int (length sq) - start + 1)) genes_rc)"
  have 5: "sorted (map fst ?cor)" by (rule sorted_fst) simp
  have 6: "0 \<le> gap \<longrightarrow> sorted_wrt (\<lambda>a b. fst a < fst b) genes"
  proof
    assume gap: "0 \<le> gap"
    from predict_genes_sorted_invariant [OF gap 1]
    have a: "sorted_wrt (\<lambda>a b. snd a < fst b) genes" and b: "\<forall>g\<in>set genes. fst g < snd g"
      by simp_all
    show "sorted_wrt (\<lambda>a b. fst a < fst b) genes"
    proof (rule sorted_wrt_mono_rel [OF _ a])
      fix x y :: gene assume "x \<in> set genes" "snd x < fst y"
      with b show "fst x < fst y" by fastforce
    qed
  qed
  from 1 2 3 4 5 6 show ?thesis by blast
qed

lemma example_main:
  "main_genes ''TTAGGGCATGGGGGGCTCCGGAGCCCCCCATGCCCTAA'' 3 10 0 = Some (Inr [(30, 38), (1, 9)])"
  by code_simp

theorem main_genes_order_witness:
  "main_genes ''TTAGGGCATGGGGGGCTCCGGAGCCCCCCATGCCCTAA'' 3 10 0 = Some (Inr [(30, 38), (1, 9)]) \<and>
   (0::int) \<le> 0 \<and>
   (\<exists>genes sequence_rc genes_rc genes_cor.
      predict_genes ''TTAGGGCATGGGGGGCTCCGGAGCCCCCCATGCCCTAA'' start_regex stop_regex shine_regex
        3 10 0 = Some (Inr genes) \<and>
      reverse_complement ''TTAGGGCATGGGGGGCTCCGGAGCCCCCCATGCCCTAA'' = Inr sequence_rc \<and>
      predict_genes sequence_rc start_regex stop_regex shine_regex 3 10 0 = Some (Inr genes_rc) \<and>
      [(30, 38), (1, 9)] = genes @ genes_cor \<and> sorted (map fst genes_cor) \<and>
      sorted_wrt (\<lambda>a b. fst a < fst b) genes)"
proof -
  from main_genes_order [OF example_main] obtain genes sequence_rc genes_rc genes_cor where
    "predict_genes ''TTAGGGCATGGGGGGCTCCGGAGCCCCCCATGCCCTAA'' start_regex stop_regex shine_regex
        3 10 0 = Some (Inr genes)"
    "reverse_complement ''TTAGGGCATGGGGGGCTCCGGAGCCCCCCATGCCCTAA'' = Inr sequence_rc"
    "predict_genes sequence_rc start_regex stop_regex shine_regex 3 10 0 = Some (Inr genes_rc)"
    "[(30, 38), (1, 9)] = genes @ genes_cor" "sorted (map fst genes_cor)"
    "sorted_wrt (\<lambda>a b. fst a < fst b) genes"
    by auto
  with example_main show ?thesis by blast
qed

text \<open>
  C1, as the specification states it, fails: here the forward gene starts at 30 and the
  remapped reverse gene, which follows it in the list, at 1.
\<close>

theorem main_genes_not_sorted:
  "main_genes ''TTAGGGCATGGGGGGCTCCGGAGCCCCCCATGCCCTAA'' 3 10 0 = Some (Inr [(30, 38), (1, 9)]) \<and>
   \<not> sorted (map fst [(30::int, 38::int), (1, 9)])"
proof -
  have "main_genes ''TTAGGGCATGGGGGGCTCCGGAGCCCCCCATGCCCTAA'' 3 10 0 =
      Some (Inr [(30, 38), (1, 9)])" by code_simp
  then show ?thesis by simp
qed

end
